theory Spec2Isabelle
  imports Main "HOL-Library.Word"
begin

section \<open>The iterative Fibonacci function of the RISC-V simulator's extras\<close>

text \<open>
  The program is \<^verbatim>\<open>experimental/riscv-sim/Extra/fib_imperative.cpp\<close>:
  \<^verbatim>\<open>
  int fib_imperative( int n ) {
      int fib1 = 1;
      int fib2 = 1;
      int fibonacci = fib1;
      int i = 2;
      while ( i < n ) {
          fibonacci = fib1 + fib2;
          fib1 = fib2;
          fib2 = fibonacci;
          i = i + 1;
      }
      return fibonacci;
  }
  \<close>
  An \<^verbatim>\<open>int\<close> is a 32-bit word read as two's complement. The comparison of the loop
  guard is the signed one. Addition is the addition of the machine, which wraps around
  (C++ itself leaves a signed overflow undefined; the model takes the wrap-around of the
  target's add instruction).
\<close>

type_synonym int32 = "32 word"

subsection \<open>The local variables\<close>

record fib_state =
  fib1 :: int32
  fib2 :: int32
  fibonacci :: int32
  i :: int32

text \<open>The four declarations before the loop, in the order of the source.\<close>

definition fib_init :: fib_state where
  "fib_init =
     (let v_fib1 = 1;
          v_fib2 = 1;
          v_fibonacci = v_fib1;
          v_i = 2
      in \<lparr>fib1 = v_fib1, fib2 = v_fib2, fibonacci = v_fibonacci, i = v_i\<rparr>)"

text \<open>The loop guard \<^verbatim>\<open>i < n\<close> on signed values.\<close>

definition guard :: "int32 \<Rightarrow> fib_state \<Rightarrow> bool" where
  "guard n s = (sint (i s) < sint n)"

text \<open>The four assignments of the loop body, one after the other.\<close>

definition body :: "fib_state \<Rightarrow> fib_state" where
  "body s =
     (let s1 = s\<lparr>fibonacci := fib1 s + fib2 s\<rparr>;
          s2 = s1\<lparr>fib1 := fib2 s1\<rparr>;
          s3 = s2\<lparr>fib2 := fibonacci s2\<rparr>
      in s3\<lparr>i := i s3 + 1\<rparr>)"

text \<open>
  The loop. A run that never left the loop would be \<open>None\<close>, so that leaving the loop
  is a property to prove and not one of the definition.
\<close>

partial_function (option) fib_loop :: "int32 \<Rightarrow> fib_state \<Rightarrow> fib_state option" where
  "fib_loop n s = (if guard n s then fib_loop n (body s) else Some s)"

declare fib_loop.simps [code]

definition fib_imperative :: "int32 \<Rightarrow> int32 option" where
  "fib_imperative n = map_option fibonacci (fib_loop n fib_init)"

text \<open>
  The same loop with a counter of the executions of its body. The counter is not a
  variable of the program: it only records how often the body ran.
\<close>

partial_function (option) fib_loop_count ::
  "int32 \<Rightarrow> fib_state \<Rightarrow> nat \<Rightarrow> (fib_state \<times> nat) option" where
  "fib_loop_count n s c =
     (if guard n s then fib_loop_count n (body s) (Suc c) else Some (s, c))"

declare fib_loop_count.simps [code]

text \<open>The distance of the counter \<open>i\<close> from \<open>n\<close>, zero when \<open>i\<close> is not below \<open>n\<close>.\<close>

definition iterations :: "int32 \<Rightarrow> fib_state \<Rightarrow> nat" where
  "iterations n s = nat (sint n - sint (i s))"

subsection \<open>The loop with its costs\<close>

text \<open>
  The costs of a run: the executions of the loop body, the executions of \<^verbatim>\<open>+\<close>, and
  the local variables declared. They are not variables of the program.
\<close>

record cost =
  iters :: nat
  adds :: nat
  cells :: nat

definition cost0 :: cost where
  "cost0 = \<lparr>iters = 0, adds = 0, cells = 0\<rparr>"

text \<open>A declaration \<^verbatim>\<open>int x = v;\<close> takes one more cell.\<close>

definition decl_cost :: "int32 \<Rightarrow> cost \<Rightarrow> int32 \<times> cost" where
  "decl_cost v c = (v, c\<lparr>cells := Suc (cells c)\<rparr>)"

text \<open>An evaluation of \<^verbatim>\<open>a + b\<close> is one more addition.\<close>

definition plus_cost :: "int32 \<Rightarrow> int32 \<Rightarrow> cost \<Rightarrow> int32 \<times> cost" where
  "plus_cost a b c = (a + b, c\<lparr>adds := Suc (adds c)\<rparr>)"

text \<open>
  The source once more, every declaration through \<open>decl_cost\<close> and every \<^verbatim>\<open>+\<close>
  through \<open>plus_cost\<close>: four declarations before the loop; in the body the sum
  \<^verbatim>\<open>fib1 + fib2\<close> and the increment \<^verbatim>\<open>i + 1\<close>, and no declaration.
\<close>

definition fib_init_cost :: "fib_state \<times> cost" where
  "fib_init_cost =
     (let (v_fib1, c1) = decl_cost 1 cost0;
          (v_fib2, c2) = decl_cost 1 c1;
          (v_fibonacci, c3) = decl_cost v_fib1 c2;
          (v_i, c4) = decl_cost 2 c3
      in (\<lparr>fib1 = v_fib1, fib2 = v_fib2, fibonacci = v_fibonacci, i = v_i\<rparr>, c4))"

definition body_cost :: "fib_state \<times> cost \<Rightarrow> fib_state \<times> cost" where
  "body_cost sc =
     (let (s, c) = sc;
          c0 = c\<lparr>iters := Suc (iters c)\<rparr>;
          (v, c1) = plus_cost (fib1 s) (fib2 s) c0;
          s1 = s\<lparr>fibonacci := v\<rparr>;
          s2 = s1\<lparr>fib1 := fib2 s1\<rparr>;
          s3 = s2\<lparr>fib2 := fibonacci s2\<rparr>;
          (w, c2) = plus_cost (i s3) 1 c1
      in (s3\<lparr>i := w\<rparr>, c2))"

partial_function (option) fib_loop_cost ::
  "int32 \<Rightarrow> fib_state \<times> cost \<Rightarrow> (fib_state \<times> cost) option" where
  "fib_loop_cost n sc =
     (if guard n (fst sc) then fib_loop_cost n (body_cost sc) else Some sc)"

declare fib_loop_cost.simps [code]

subsection \<open>The sequence of the specification\<close>

text \<open>
  The specification's words: fib(1) = 1, fib(2) = 1, fib(k) = fib(k-1) + fib(k-2).
  They give no term of index 0, and neither does this definition.
\<close>

fun fib_spec :: "nat \<Rightarrow> int" where
  "fib_spec (Suc 0) = 1"
| "fib_spec (Suc (Suc 0)) = 1"
| "fib_spec (Suc (Suc (Suc k))) = fib_spec (Suc (Suc k)) + fib_spec (Suc k)"

text \<open>
  An integer as a 32-bit \<^verbatim>\<open>int\<close>: reduced modulo \<open>2 ^ 32\<close>; \<open>sint\<close> reads the
  result in the range from \<open>- 2 ^ 31\<close> up to \<open>2 ^ 31 - 1\<close>.
\<close>

definition to_int32 :: "int \<Rightarrow> int32" where
  "to_int32 x = word_of_int x"

subsection \<open>The states at the loop guard\<close>

text \<open>
  The states in which the guard \<^verbatim>\<open>i < n\<close> is evaluated: first the initial state, and
  again after every execution of the body that the guard let through.
\<close>

inductive at_guard :: "int32 \<Rightarrow> fib_state \<Rightarrow> bool" for n :: int32 where
  at_guard_first: "at_guard n fib_init"
| at_guard_next: "at_guard n s \<Longrightarrow> guard n s \<Longrightarrow> at_guard n (body s)"

code_pred at_guard .

text \<open>
  The invariant at the guard: the counter is between 2 and \<open>n\<close>, \<open>fib1\<close> is the term of
  index \<open>i - 1\<close> and \<open>fib2\<close> the term of index \<open>i\<close>, both as 32-bit integers.
\<close>

definition fib_inv :: "int32 \<Rightarrow> fib_state \<Rightarrow> bool" where
  "fib_inv n s =
     (2 \<le> sint (i s) \<and> sint (i s) \<le> sint n \<and>
      fib1 s = to_int32 (fib_spec (nat (sint (i s)) - 1)) \<and>
      fib2 s = to_int32 (fib_spec (nat (sint (i s)))))"

subsection \<open>A run of the function inside an environment\<close>

text \<open>
  A run as a relation, so that two runs from the same argument are two derivations and
  nothing says beforehand that they agree. The environment \<open>g\<close> stands for whatever
  exists outside the call frame (globals, memory, devices). The statements of the source
  name the parameter and the four locals only, so no rule looks at \<open>g\<close> or changes it;
  \<open>loop_run n s g t g'\<close> is a run of the loop from the locals \<open>s\<close> in the environment
  \<open>g\<close> to the locals \<open>t\<close> in the environment \<open>g'\<close>.
\<close>

inductive loop_run :: "int32 \<Rightarrow> fib_state \<Rightarrow> 'g \<Rightarrow> fib_state \<Rightarrow> 'g \<Rightarrow> bool"
  for n :: int32 where
  loop_leave: "\<not> guard n s \<Longrightarrow> loop_run n s g s g"
| loop_again: "guard n s \<Longrightarrow> loop_run n (body s) g t g' \<Longrightarrow> loop_run n s g t g'"

inductive fib_run :: "int32 \<Rightarrow> 'g \<Rightarrow> int32 \<Rightarrow> 'g \<Rightarrow> bool" where
  fib_runI: "loop_run n fib_init g s g' \<Longrightarrow> fib_run n g (fibonacci s) g'"

code_pred loop_run .

code_pred fib_run .

section \<open>Unfolding the loop\<close>

lemma fib_loop_step: "guard n s \<Longrightarrow> fib_loop n s = fib_loop n (body s)"
  by (subst fib_loop.simps) simp

lemma fib_loop_exit: "\<not> guard n s \<Longrightarrow> fib_loop n s = Some s"
  by (subst fib_loop.simps) simp

lemma fib_loop_count_step:
  "guard n s \<Longrightarrow> fib_loop_count n s c = fib_loop_count n (body s) (Suc c)"
  by (subst fib_loop_count.simps) simp

lemma fib_loop_count_exit: "\<not> guard n s \<Longrightarrow> fib_loop_count n s c = Some (s, c)"
  by (subst fib_loop_count.simps) simp

lemma body_sel [simp]:
  "fib1 (body s) = fib2 s"
  "fib2 (body s) = fib1 s + fib2 s"
  "fibonacci (body s) = fib1 s + fib2 s"
  "i (body s) = i s + 1"
  by (simp_all add: body_def)

lemma fib_init_sel [simp]:
  "fib1 fib_init = 1"
  "fib2 fib_init = 1"
  "fibonacci fib_init = 1"
  "i fib_init = 2"
  by (simp_all add: fib_init_def)

text \<open>Below another \<^verbatim>\<open>int\<close>, the increment of the counter does not overflow.\<close>

lemma sint_succ_below:
  fixes a b :: int32
  assumes "sint a < sint b"
  shows "sint (a + 1) = sint a + 1"
proof -
  have "sint b < 2 ^ 31" using sint_lt [of b] by simp
  then have hi: "sint a + 1 < 2 ^ 31" using assms by simp
  have "- (2 ^ 31) \<le> sint a" using sint_ge [of a] by simp
  then have lo: "- (2 ^ 31) \<le> sint a + 1" by simp
  have "sint (a + 1) = signed_take_bit 31 (sint a + 1)"
    by (simp add: sint_word_add)
  also have "\<dots> = sint a + 1"
    using lo hi by (rule signed_take_bit_int_eq_self)
  finally show ?thesis .
qed

lemma guard_body_i: "guard n s \<Longrightarrow> sint (i (body s)) = sint (i s) + 1"
  by (simp add: guard_def sint_succ_below)

lemma iterations_0: "iterations n s = 0 \<Longrightarrow> \<not> guard n s"
  by (simp add: guard_def iterations_def)

lemma iterations_Suc:
  assumes "Suc k = iterations n s"
  shows "guard n s" and "k = iterations n (body s)"
proof -
  show g: "guard n s" using assms by (simp add: guard_def iterations_def)
  show "k = iterations n (body s)"
    using assms guard_body_i [OF g] by (simp add: iterations_def)
qed

text \<open>
  The loop leaves after \<open>iterations n s\<close> executions of its body, from every state:
  the counter \<open>i\<close> comes one closer to \<open>n\<close> each time.
\<close>

lemma fib_loop_count_funpow:
  "fib_loop_count n s c = Some ((body ^^ iterations n s) s, c + iterations n s)"
proof (induction "iterations n s" arbitrary: s c)
  case 0
  then show ?case by (simp add: fib_loop_count_exit iterations_0)
next
  case (Suc k)
  note g = iterations_Suc(1) [OF Suc.hyps(2)] and k = iterations_Suc(2) [OF Suc.hyps(2)]
  have "fib_loop_count n s c = fib_loop_count n (body s) (Suc c)"
    using g by (rule fib_loop_count_step)
  also have "\<dots> = Some ((body ^^ k) (body s), Suc c + k)"
    using Suc.hyps(1) [OF k] k by simp
  finally show ?case
    using Suc.hyps(2) [symmetric] by (simp add: funpow_swap1)
qed

lemma fib_loop_funpow: "fib_loop n s = Some ((body ^^ iterations n s) s)"
proof (induction "iterations n s" arbitrary: s)
  case 0
  then show ?case by (simp add: fib_loop_exit iterations_0)
next
  case (Suc k)
  note g = iterations_Suc(1) [OF Suc.hyps(2)] and k = iterations_Suc(2) [OF Suc.hyps(2)]
  have "fib_loop n s = fib_loop n (body s)"
    using g by (rule fib_loop_step)
  also have "\<dots> = Some ((body ^^ k) (body s))"
    using Suc.hyps(1) [OF k] k by simp
  finally show ?case
    using Suc.hyps(2) [symmetric] by (simp add: funpow_swap1)
qed

lemma iterations_init: "iterations n fib_init = nat (sint n - 2)"
  by (simp add: iterations_def)

section \<open>Termination\<close>

text \<open>
  Claim C6. For every 32-bit signed input \<open>n\<close>, negative and zero included,
  \<open>fib_imperative\<close> leaves its loop and returns a value: no input is rejected and the
  model has no failure other than not returning, which does not occur.
\<close>

theorem fib_imperative_returns: "\<exists>r. fib_imperative n = Some r"
  by (simp add: fib_imperative_def fib_loop_funpow)

section \<open>The value returned\<close>

lemma funpow_body_init:
  "fib1 ((body ^^ k) fib_init) = to_int32 (fib_spec (Suc k)) \<and>
   fib2 ((body ^^ k) fib_init) = to_int32 (fib_spec (Suc (Suc k)))"
  by (induction k) (simp_all add: to_int32_def)

lemma funpow_body_init_fibonacci:
  "fibonacci ((body ^^ Suc k) fib_init) = to_int32 (fib_spec (Suc (Suc (Suc k))))"
  using funpow_body_init [of k] by (simp add: to_int32_def)

lemma fib_imperative_small: "sint n \<le> 2 \<Longrightarrow> fib_imperative n = Some 1"
  by (simp add: fib_imperative_def fib_loop_funpow iterations_init)

lemma fib_imperative_wrapped:
  assumes "1 \<le> sint n"
  shows "fib_imperative n = Some (to_int32 (fib_spec (nat (sint n))))"
proof (cases "sint n \<le> 2")
  case True
  then have "sint n = 1 \<or> sint n = 2" using assms by arith
  then have "fib_spec (nat (sint n)) = 1" by (auto simp: numeral_2_eq_2)
  then show ?thesis using True by (simp add: fib_imperative_small to_int32_def)
next
  case False
  then obtain k where k: "nat (sint n - 2) = Suc k"
    by (cases "nat (sint n - 2)") simp_all
  then have "nat (sint n) = Suc (Suc (Suc k))" by arith
  then show ?thesis
    using k funpow_body_init_fibonacci [of k]
    by (simp add: fib_imperative_def fib_loop_funpow iterations_init)
qed

lemma fib_spec_pos: "0 < fib_spec (Suc k) \<and> 0 < fib_spec (Suc (Suc k))"
  by (induction k) simp_all

lemma uint_to_int32: "uint (to_int32 x) = x mod 2 ^ 32"
  by (simp add: to_int32_def uint_word_of_int)

lemma sint_to_int32: "sint (to_int32 x) = (x + 2 ^ 31) mod 2 ^ 32 - 2 ^ 31"
  by (simp add: to_int32_def sint_sbintrunc' signed_take_bit_eq_take_bit_shift take_bit_eq_mod)

lemma sint_to_int32_id: "0 \<le> x \<Longrightarrow> x < 2 ^ 31 \<Longrightarrow> sint (to_int32 x) = x"
  by (simp add: sint_to_int32)

text \<open>
  Claim C1. For every \<open>n\<close> with \<open>1 \<le> n\<close> whose term \<open>fib_spec n\<close> fits a 32-bit signed
  integer, \<open>fib_imperative n\<close> returns that term of the sequence fib(1) = 1, fib(2) = 1,
  fib(k) = fib(k-1) + fib(k-2).
\<close>

theorem fib_imperative_correct:
  assumes "1 \<le> sint n" and "fib_spec (nat (sint n)) < 2 ^ 31"
  shows "\<exists>r. fib_imperative n = Some r \<and> sint r = fib_spec (nat (sint n))"
proof -
  obtain k where "nat (sint n) = Suc k" using assms(1) by (cases "nat (sint n)") simp_all
  then have "0 \<le> fib_spec (nat (sint n))" using fib_spec_pos [of k] by simp
  then show ?thesis
    using assms by (simp add: fib_imperative_wrapped sint_to_int32_id)
qed

theorem fib_imperative_correct_witness:
  "1 \<le> sint (10 :: int32) \<and> fib_spec (nat (sint (10 :: int32))) < 2 ^ 31 \<and>
   (\<exists>r. fib_imperative 10 = Some r \<and> sint r = fib_spec (nat (sint (10 :: int32))))"
proof -
  have h1: "1 \<le> sint (10 :: int32)" by simp
  have h2: "fib_spec (nat (sint (10 :: int32))) < 2 ^ 31" by (simp add: eval_nat_numeral)
  show ?thesis using h1 h2 fib_imperative_correct [OF h1 h2] by blast
qed

text \<open>
  Claim C7. For every \<open>n \<ge> 1\<close>, \<open>fib_imperative n\<close> returns normally, and what it
  returns is the \<open>n\<close>-th term of the sequence reduced modulo \<open>2 ^ 32\<close> and read as a 32-bit
  two's-complement integer: an overflow wraps around and is not reported.
\<close>

theorem fib_imperative_mod:
  assumes "1 \<le> sint n"
  shows "\<exists>r. fib_imperative n = Some r \<and>
           uint r = fib_spec (nat (sint n)) mod 2 ^ 32 \<and>
           sint r = (fib_spec (nat (sint n)) + 2 ^ 31) mod 2 ^ 32 - 2 ^ 31"
  using assms by (simp add: fib_imperative_wrapped uint_to_int32 sint_to_int32)

text \<open>
  Claim C5. The first terms: \<open>fib_imperative\<close> returns 1, 1, 2, 3, 5 at 1, 2, 3, 4, 5
  and 55 at 10.
\<close>

theorem fib_imperative_values:
  "fib_imperative 1 = Some 1 \<and> fib_imperative 2 = Some 1 \<and> fib_imperative 3 = Some 2 \<and>
   fib_imperative 4 = Some 3 \<and> fib_imperative 5 = Some 5 \<and> fib_imperative 10 = Some 55"
  by code_simp

section \<open>The number of iterations\<close>

text \<open>
  Claim C3. For every \<open>n \<le> 2\<close>, the non-positive ones included, \<open>fib_imperative n\<close>
  returns 1: the body of the loop is not executed (the count is 0 and the state is the
  initial one), and the initial value of \<open>fibonacci\<close> is returned.
\<close>

theorem fib_imperative_le_2:
  assumes "sint n \<le> 2"
  shows "fib_imperative n = Some 1 \<and> fib_loop_count n fib_init 0 = Some (fib_init, 0)"
  using assms by (simp add: fib_imperative_small fib_loop_count_funpow iterations_init)

lemma fib_loop_cost_step:
  "guard n s \<Longrightarrow> fib_loop_cost n (s, c) = fib_loop_cost n (body_cost (s, c))"
  by (subst fib_loop_cost.simps) simp

lemma fib_loop_cost_exit: "\<not> guard n s \<Longrightarrow> fib_loop_cost n (s, c) = Some (s, c)"
  by (subst fib_loop_cost.simps) simp

text \<open>Without the costs, the body and the initial state are the ones of the program.\<close>

lemma body_cost_eq:
  "body_cost (s, c) = (body s, c\<lparr>iters := Suc (iters c), adds := Suc (Suc (adds c))\<rparr>)"
  by (simp add: body_cost_def body_def plus_cost_def)

lemma fib_init_cost_eq: "fib_init_cost = (fib_init, \<lparr>iters = 0, adds = 0, cells = 4\<rparr>)"
  by (simp add: fib_init_cost_def fib_init_def decl_cost_def cost0_def)

lemma fib_loop_cost_funpow:
  "\<exists>c'. fib_loop_cost n (s, c) = Some ((body ^^ iterations n s) s, c') \<and>
        iters c' = iters c + iterations n s \<and>
        adds c' = adds c + 2 * iterations n s \<and>
        cells c' = cells c"
proof (induction "iterations n s" arbitrary: s c)
  case 0
  then show ?case by (simp add: fib_loop_cost_exit iterations_0)
next
  case (Suc k)
  note g = iterations_Suc(1) [OF Suc.hyps(2)] and k = iterations_Suc(2) [OF Suc.hyps(2)]
  define d where "d = c\<lparr>iters := Suc (iters c), adds := Suc (Suc (adds c))\<rparr>"
  obtain c' where c': "fib_loop_cost n (body s, d) = Some ((body ^^ k) (body s), c')"
    "iters c' = iters d + k" "adds c' = adds d + 2 * k" "cells c' = cells d"
    using Suc.hyps(1) [OF k, of d] k by auto
  have "fib_loop_cost n (s, c) = fib_loop_cost n (body s, d)"
    using g by (simp add: fib_loop_cost_step body_cost_eq d_def)
  then have "fib_loop_cost n (s, c) = Some ((body ^^ Suc k) s, c')"
    using c'(1) by (simp add: funpow_swap1)
  moreover have "iters c' = iters c + Suc k" "adds c' = adds c + 2 * Suc k" "cells c' = cells c"
    using c'(2-4) by (simp_all add: d_def)
  ultimately show ?case using Suc.hyps(2) [symmetric] by simp
qed

text \<open>
  Claim C8, as the program has it. For every \<open>n\<close>, the loop executes its body
  \<open>max 0 (n - 2)\<close> times and ends in the state the loop of the program ends in. Each
  execution of the body, from whatever state, performs two additions, the sum
  \<^verbatim>\<open>fib1 + fib2\<close> and the increment \<^verbatim>\<open>i + 1\<close>, and declares nothing; so a run performs
  twice as many additions as iterations, and its storage is the four variables
  declared before the loop, whatever \<open>n\<close> is.
\<close>

theorem fib_loop_cost_total:
  "(\<exists>s' c'. fib_loop_cost n fib_init_cost = Some (s', c') \<and>
           fib_loop n fib_init = Some s' \<and>
           iters c' = nat (max 0 (sint n - 2)) \<and>
           adds c' = 2 * iters c' \<and>
           cells c' = 4) \<and>
   (\<exists>d'. body_cost (s, d) = (body s, d') \<and>
         iters d' = iters d + 1 \<and> adds d' = adds d + 2 \<and> cells d' = cells d)"
proof
  show "\<exists>s' c'. fib_loop_cost n fib_init_cost = Some (s', c') \<and>
          fib_loop n fib_init = Some s' \<and>
          iters c' = nat (max 0 (sint n - 2)) \<and>
          adds c' = 2 * iters c' \<and>
          cells c' = 4"
    using fib_loop_cost_funpow [of n fib_init "\<lparr>iters = 0, adds = 0, cells = 4\<rparr>"]
    by (auto simp: fib_init_cost_eq fib_loop_funpow iterations_init)
  show "\<exists>d'. body_cost (s, d) = (body s, d') \<and>
          iters d' = iters d + 1 \<and> adds d' = adds d + 2 \<and> cells d' = cells d"
    by (simp add: body_cost_eq)
qed

text \<open>
  With one addition for each iteration the count is wrong: at \<open>n = 3\<close> the body is
  executed once and two additions are performed.
\<close>

theorem fib_loop_two_additions_at_3:
  "fib_loop_cost 3 fib_init_cost =
     Some (\<lparr>fib1 = 1, fib2 = 2, fibonacci = 2, i = 3\<rparr>, \<lparr>iters = 1, adds = 2, cells = 4\<rparr>) \<and>
   nat (max 0 (sint (3 :: int32) - 2)) = 1 \<and> (2 :: nat) \<noteq> 1 * 1"
  by code_simp

section \<open>The recurrence\<close>

lemma to_int32_add: "to_int32 (x + y) = to_int32 x + to_int32 y"
  by (simp add: to_int32_def)

lemma sint_diff_nonneg:
  fixes a b :: int32
  assumes "0 \<le> sint a" and "0 \<le> sint b"
  shows "sint (a - b) = sint a - sint b"
proof -
  have "sint a < 2 ^ 31" using sint_lt [of a] by simp
  then have hi: "sint a - sint b < 2 ^ 31" using assms(2) by simp
  have "sint b < 2 ^ 31" using sint_lt [of b] by simp
  then have lo: "- (2 ^ 31) \<le> sint a - sint b" using assms(1) by simp
  have "sint (a - b) = signed_take_bit 31 (sint a - sint b)"
    by (simp add: sint_word_diff)
  also have "\<dots> = sint a - sint b"
    using lo hi by (rule signed_take_bit_int_eq_self)
  finally show ?thesis .
qed

text \<open>
  Claim C2, as the program has it. For every \<open>n \<ge> 3\<close>, the value returned at \<open>n\<close> is
  the sum of the values returned at \<open>n - 1\<close> and at \<open>n - 2\<close>, the sum being the wrapping
  addition of 32-bit integers.
\<close>

theorem fib_imperative_rec:
  assumes "3 \<le> sint n"
  shows "\<exists>a b c. fib_imperative n = Some c \<and> fib_imperative (n - 1) = Some a \<and>
           fib_imperative (n - 2) = Some b \<and> c = a + b"
proof -
  define k where "k = nat (sint n - 3)"
  have n0: "nat (sint n) = Suc (Suc (Suc k))" using assms by (simp add: k_def)
  have "sint (n - 1) = sint n - 1" using assms sint_diff_nonneg [of n 1] by simp
  then have n1: "1 \<le> sint (n - 1)" "nat (sint (n - 1)) = Suc (Suc k)"
    using assms by (simp_all add: k_def)
  have "sint (n - 2) = sint n - 2" using assms sint_diff_nonneg [of n 2] by simp
  then have n2: "1 \<le> sint (n - 2)" "nat (sint (n - 2)) = Suc k"
    using assms by (simp_all add: k_def)
  have "fib_imperative n = Some (to_int32 (fib_spec (Suc (Suc (Suc k)))))"
    using assms n0 by (simp add: fib_imperative_wrapped)
  moreover have "fib_imperative (n - 1) = Some (to_int32 (fib_spec (Suc (Suc k))))"
    using n1 by (simp add: fib_imperative_wrapped)
  moreover have "fib_imperative (n - 2) = Some (to_int32 (fib_spec (Suc k)))"
    using n2 by (simp add: fib_imperative_wrapped)
  ultimately show ?thesis by (simp add: to_int32_add)
qed

text \<open>
  At \<open>n = 2\<close> the recurrence fails: the function returns 1 at 2, at 1 and at 0, and 1 is
  not 1 + 1, neither as 32-bit integers nor as integers.
\<close>

theorem fib_imperative_rec_fails_at_2:
  "fib_imperative 2 = Some 1 \<and> fib_imperative (2 - 1) = Some 1 \<and>
   fib_imperative (2 - 2) = Some 1 \<and> (1 :: int32) \<noteq> 1 + 1 \<and>
   sint (1 :: int32) \<noteq> sint (1 :: int32) + sint (1 :: int32)"
  by (simp add: fib_imperative_small)

section \<open>Monotonicity\<close>

lemma fib_spec_step_le: "fib_spec (Suc k) \<le> fib_spec (Suc (Suc k))"
proof (cases k)
  case 0
  then show ?thesis by simp
next
  case (Suc j)
  then show ?thesis using fib_spec_pos [of j] by simp
qed

lemma fib_spec_add_le: "fib_spec (Suc k) \<le> fib_spec (Suc k + d)"
proof (induction d)
  case 0
  show ?case by simp
next
  case (Suc d)
  then show ?case using fib_spec_step_le [of "k + d"] by simp
qed

lemma fib_spec_mono: "1 \<le> j \<Longrightarrow> j \<le> k \<Longrightarrow> fib_spec j \<le> fib_spec k"
  using fib_spec_add_le [of "j - 1" "k - j"] by simp

text \<open>The terms by iteration on a pair, to compute one without the double recursion.\<close>

lemma fib_spec_pair:
  "((\<lambda>(a, b). (b, a + b)) ^^ k) (1, 1) = (fib_spec (Suc k), fib_spec (Suc (Suc k)))"
  by (induction k) simp_all

lemma fib_spec_47: "fib_spec 47 = 2971215073"
proof -
  have "fib_spec (Suc (Suc 45)) = snd (((\<lambda>(a, b). (b, a + b)) ^^ 45) (1, 1))"
    by (simp only: fib_spec_pair snd_conv)
  also have "\<dots> = 2971215073"
    by (simp add: numeral_eq_Suc)
  finally show ?thesis by simp
qed

text \<open>The term of index 46 is the last one that fits a 32-bit signed integer.\<close>

lemma fib_spec_representable:
  assumes "1 \<le> k" and "fib_spec k < 2 ^ 31"
  shows "k \<le> 46"
proof (rule ccontr)
  assume "\<not> k \<le> 46"
  then have "fib_spec 47 \<le> fib_spec k" by (intro fib_spec_mono) simp_all
  then show False using assms(2) by (simp add: fib_spec_47)
qed

text \<open>
  Claim C4, as the program has it. For every \<open>n \<ge> 1\<close> such that the term of index
  \<open>n + 1\<close> fits a 32-bit signed integer (that is, \<open>n \<le> 45\<close>), the value returned at
  \<open>n + 1\<close> is not below the value returned at \<open>n\<close>.
\<close>

theorem fib_imperative_mono:
  assumes "1 \<le> sint n" and "fib_spec (nat (sint n) + 1) < 2 ^ 31"
  shows "\<exists>a b. fib_imperative n = Some a \<and> fib_imperative (n + 1) = Some b \<and>
           sint a \<le> sint b"
proof -
  define k where "k = nat (sint n) - 1"
  have k: "nat (sint n) = Suc k" using assms(1) by (simp add: k_def)
  have "nat (sint n) + 1 \<le> 46" using assms(2) by (intro fib_spec_representable) simp_all
  then have "sint n < sint (46 :: int32)" by simp
  then have "sint (n + 1) = sint n + 1" by (rule sint_succ_below)
  then have n1: "1 \<le> sint (n + 1)" "nat (sint (n + 1)) = Suc (Suc k)"
    using assms(1) k by simp_all
  have hi: "fib_spec (Suc (Suc k)) < 2 ^ 31" using assms(2) k by simp
  have le: "fib_spec (Suc k) \<le> fib_spec (Suc (Suc k))" by (rule fib_spec_step_le)
  have a: "sint (to_int32 (fib_spec (Suc k))) = fib_spec (Suc k)"
    using fib_spec_pos [of k] hi le by (intro sint_to_int32_id) simp_all
  have b: "sint (to_int32 (fib_spec (Suc (Suc k)))) = fib_spec (Suc (Suc k))"
    using fib_spec_pos [of k] hi by (intro sint_to_int32_id) simp_all
  have "fib_imperative n = Some (to_int32 (fib_spec (Suc k)))"
    using assms(1) k by (simp add: fib_imperative_wrapped)
  moreover have "fib_imperative (n + 1) = Some (to_int32 (fib_spec (Suc (Suc k))))"
    using n1 by (simp add: fib_imperative_wrapped)
  ultimately show ?thesis using a b le by simp
qed

text \<open>
  Without the bound the order fails: the term of index 47 wraps around to a negative
  value, below the value returned at 46.
\<close>

theorem fib_imperative_not_mono_at_46:
  "1 \<le> sint (46 :: int32) \<and> fib_imperative 46 = Some 1836311903 \<and>
   fib_imperative (46 + 1) = Some 2971215073 \<and>
   \<not> sint (2971215073 :: int32) \<ge> sint (1836311903 :: int32)"
  by code_simp

section \<open>The loop invariant\<close>

lemma fib_inv_init: "2 \<le> sint n \<Longrightarrow> fib_inv n fib_init"
  by (simp add: fib_inv_def to_int32_def numeral_2_eq_2)

lemma fib_inv_body:
  assumes "fib_inv n s" and "guard n s"
  shows "fib_inv n (body s)"
proof -
  define k where "k = nat (sint (i s)) - 2"
  have lo: "2 \<le> sint (i s)" using assms(1) by (simp add: fib_inv_def)
  then have k: "nat (sint (i s)) = Suc (Suc k)" unfolding k_def by arith
  have i': "sint (i (body s)) = sint (i s) + 1" using assms(2) by (rule guard_body_i)
  then have k': "nat (sint (i (body s))) = Suc (Suc (Suc k))" using k by simp
  have "sint (i (body s)) \<le> sint n" using assms(2) i' by (simp add: guard_def)
  moreover have "2 \<le> sint (i (body s))" using lo i' by simp
  moreover have "fib1 (body s) = to_int32 (fib_spec (Suc (Suc k)))"
    using assms(1) k by (simp add: fib_inv_def)
  moreover have "fib2 (body s) = to_int32 (fib_spec (Suc (Suc (Suc k))))"
    using assms(1) k by (simp add: fib_inv_def to_int32_add add.commute)
  ultimately show ?thesis using k' by (simp add: fib_inv_def)
qed

lemma at_guard_inv: "at_guard n s \<Longrightarrow> 2 \<le> sint n \<Longrightarrow> fib_inv n s"
  by (induction rule: at_guard.induct) (simp_all add: fib_inv_init fib_inv_body)

text \<open>
  Claim C9. For every \<open>n \<ge> 3\<close>: the invariant holds in the initial state, every
  execution of the loop body preserves it, and so it holds in every state in which the
  guard is evaluated. There the counter \<open>i\<close> is between 2 and \<open>n\<close>, \<open>fib1\<close> is the term of
  index \<open>i - 1\<close> and \<open>fib2\<close> the term of index \<open>i\<close>, modulo \<open>2 ^ 32\<close>.
\<close>

theorem fib_loop_invariant:
  assumes "3 \<le> sint n"
  shows "fib_inv n fib_init \<and>
         (fib_inv n s \<and> guard n s \<longrightarrow> fib_inv n (body s)) \<and>
         (at_guard n s \<longrightarrow> fib_inv n s)"
  using assms by (simp add: fib_inv_init fib_inv_body at_guard_inv)

section \<open>Runs and their environment\<close>

lemma loop_run_fib_loop: "loop_run n s g t g' \<Longrightarrow> g' = g \<and> fib_loop n s = Some t"
  by (induction rule: loop_run.induct) (simp_all add: fib_loop_exit fib_loop_step)

lemma loop_run_total: "loop_run n s g ((body ^^ iterations n s) s) g"
proof (induction "iterations n s" arbitrary: s)
  case 0
  then show ?case by (simp add: loop_leave iterations_0)
next
  case (Suc k)
  note g = iterations_Suc(1) [OF Suc.hyps(2)] and k = iterations_Suc(2) [OF Suc.hyps(2)]
  have "loop_run n (body s) g ((body ^^ k) (body s)) g"
    using Suc.hyps(1) [OF k] k by simp
  with g have "loop_run n s g ((body ^^ k) (body s)) g" by (rule loop_again)
  then show ?case using Suc.hyps(2) [symmetric] by (simp add: funpow_swap1)
qed

text \<open>The runs are the ones of the function: the relation and \<open>fib_imperative\<close> agree.\<close>

lemma fib_run_iff: "fib_run n g r g' \<longleftrightarrow> fib_imperative n = Some r \<and> g' = g"
proof
  assume "fib_run n g r g'"
  then show "fib_imperative n = Some r \<and> g' = g"
    by (auto simp: fib_imperative_def elim!: fib_run.cases dest: loop_run_fib_loop)
next
  assume r: "fib_imperative n = Some r \<and> g' = g"
  have "fib_run n g (fibonacci ((body ^^ iterations n fib_init) fib_init)) g"
    using loop_run_total [of n fib_init g] by (rule fib_runI)
  then show "fib_run n g r g'"
    using r by (simp add: fib_imperative_def fib_loop_funpow)
qed

text \<open>
  Claim C10. Two runs with the same argument \<open>n\<close>, in whatever environments \<open>g\<close> and
  \<open>h\<close>, return the same result, and each leaves its environment as it found it: the
  result depends on \<open>n\<close> only, and nothing outside the call frame is read or written.
\<close>

theorem fib_run_deterministic:
  assumes "fib_run n g r g'" and "fib_run n h r' h'"
  shows "r = r' \<and> g' = g \<and> h' = h"
  using assms by (simp add: fib_run_iff)

section \<open>Instances\<close>

theorem fib_imperative_mod_witness:
  "1 \<le> sint (47 :: int32) \<and>
   (\<exists>r. fib_imperative 47 = Some r \<and>
      uint r = fib_spec (nat (sint (47 :: int32))) mod 2 ^ 32 \<and>
      sint r = (fib_spec (nat (sint (47 :: int32))) + 2 ^ 31) mod 2 ^ 32 - 2 ^ 31)"
proof -
  have h: "1 \<le> sint (47 :: int32)" by simp
  show ?thesis using h fib_imperative_mod [OF h] by blast
qed

theorem fib_imperative_le_2_witness:
  "sint (- 5 :: int32) \<le> 2 \<and> fib_imperative (- 5) = Some 1 \<and>
   fib_loop_count (- 5) fib_init 0 = Some (fib_init, 0)"
proof -
  have h: "sint (- 5 :: int32) \<le> 2" by simp
  show ?thesis using h fib_imperative_le_2 [OF h] by blast
qed

theorem fib_imperative_rec_witness:
  "3 \<le> sint (47 :: int32) \<and>
   (\<exists>a b c. fib_imperative 47 = Some c \<and> fib_imperative (47 - 1) = Some a \<and>
      fib_imperative (47 - 2) = Some b \<and> c = a + b)"
proof -
  have h: "3 \<le> sint (47 :: int32)" by simp
  show ?thesis using h fib_imperative_rec [OF h] by blast
qed

theorem fib_imperative_mono_witness:
  "1 \<le> sint (45 :: int32) \<and> fib_spec (nat (sint (45 :: int32)) + 1) < 2 ^ 31 \<and>
   (\<exists>a b. fib_imperative 45 = Some a \<and> fib_imperative (45 + 1) = Some b \<and>
      sint a \<le> sint b)"
proof -
  have h1: "1 \<le> sint (45 :: int32)" by simp
  have "fib_spec (Suc (Suc 44)) = snd (((\<lambda>(a, b). (b, a + b)) ^^ 44) (1, 1))"
    by (simp only: fib_spec_pair snd_conv)
  also have "\<dots> < 2 ^ 31"
    by (simp add: numeral_eq_Suc)
  finally have h2: "fib_spec (nat (sint (45 :: int32)) + 1) < 2 ^ 31" by simp
  show ?thesis using h1 h2 fib_imperative_mono [OF h1 h2] by blast
qed

theorem fib_loop_invariant_witness:
  "3 \<le> sint (5 :: int32) \<and> at_guard 5 (body fib_init) \<and> guard 5 (body fib_init) \<and>
   fib_inv 5 fib_init \<and> fib_inv 5 (body fib_init) \<and> fib_inv 5 (body (body fib_init))"
proof -
  have h: "3 \<le> sint (5 :: int32)" by simp
  have g0: "guard 5 fib_init" by (simp add: guard_def)
  have g1: "guard 5 (body fib_init)" by (simp add: guard_def)
  have a: "at_guard 5 (body fib_init)" using at_guard_first g0 by (rule at_guard_next)
  show ?thesis using h g1 a fib_loop_invariant [OF h, of "body fib_init"] by blast
qed

theorem fib_run_deterministic_witness:
  "fib_run 5 (0 :: nat) 5 0 \<and> fib_run 5 (7 :: nat) 5 7 \<and> (5 :: int32) = 5"
proof -
  have v: "fib_imperative 5 = Some 5" by code_simp
  have a: "fib_run 5 (0 :: nat) 5 0" using v by (simp add: fib_run_iff)
  have b: "fib_run 5 (7 :: nat) 5 7" using v by (simp add: fib_run_iff)
  show ?thesis using a b fib_run_deterministic [OF a b] by blast
qed

end
